theory Spec2Isabelle
  imports Main "HOL-Library.Word"
begin

section \<open>gowc: a word, line and byte counter (main.go)\<close>

subsection \<open>Data model\<close>

text \<open>
  Go's \<^verbatim>\<open>byte\<close> is an unsigned 8-bit integer, \<^verbatim>\<open>rune\<close> is \<^verbatim>\<open>int32\<close>, and the three
  fields of \<^verbatim>\<open>Counts\<close> are \<^verbatim>\<open>int64\<close>: addition on them wraps around, and \<open>sint\<close>
  reads the signed value.
\<close>

type_synonym byte = "8 word"
type_synonym rune = "32 word"
type_synonym int64 = "64 word"

record Counts =
  Lines :: int64
  Words :: int64
  Bytes :: int64

record Flags =
  ShowLines :: bool
  ShowWords :: bool
  ShowBytes :: bool

text \<open>A Go \<^verbatim>\<open>error\<close> value is represented by its message.\<close>

type_synonym error = string

definition bufferSize :: nat where
  "bufferSize = 64 * 1024"

subsection \<open>The reader handed to \<^verbatim>\<open>count\<close>\<close>

text \<open>
  \<^verbatim>\<open>count\<close> wraps its reader in a \<^verbatim>\<open>bufio.Reader\<close> whose buffer has the length of the
  slice it reads into, so every \<^verbatim>\<open>br.Read(buf)\<close> goes straight to the underlying reader.
  What the loop sees of a reader is therefore the sequence of results \<open>(n, err)\<close> of its
  \<^verbatim>\<open>Read\<close> calls, together with the \<open>n\<close> bytes each one stored:
  \<^item> \<open>Chunk bs r\<close>: the call returned \<open>(length bs, nil)\<close>, and the reader goes on as \<open>r\<close>;
  \<^item> \<open>Eof bs\<close>: the call returned \<open>(length bs, io.EOF)\<close>;
  \<^item> \<open>Fail bs e\<close>: the call returned \<open>(length bs, e)\<close> for an error \<open>e\<close> other than
    \<^verbatim>\<open>io.EOF\<close>.
  A value of this type is a reader that ends after finitely many calls. The length of
  the buffer only bounds \<open>length bs\<close> from above (\<open>honours\<close> below); the loop itself never
  looks at it.
\<close>

datatype reader =
  Chunk "byte list" reader
| Eof "byte list"
| Fail "byte list" error

fun stream :: "reader \<Rightarrow> byte list" where
  "stream (Chunk bs r) = bs @ stream r"
| "stream (Eof bs) = bs"
| "stream (Fail bs e) = bs"

fun ending :: "reader \<Rightarrow> error option" where
  "ending (Chunk bs r) = ending r"
| "ending (Eof bs) = None"
| "ending (Fail bs e) = Some e"

fun honours :: "nat \<Rightarrow> reader \<Rightarrow> bool" where
  "honours k (Chunk bs r) = (length bs \<le> k \<and> honours k r)"
| "honours k (Eof bs) = (length bs \<le> k)"
| "honours k (Fail bs e) = (length bs \<le> k)"

subsection \<open>\<^verbatim>\<open>unicode.IsSpace\<close>\<close>

text \<open>
  The standard library's predicate: below \<^verbatim>\<open>MaxLatin1\<close> a fixed switch, above it the
  \<^verbatim>\<open>White_Space\<close> range table. \<^verbatim>\<open>count\<close> only ever passes \<^verbatim>\<open>rune(char)\<close> for a byte,
  which is the zero-extended byte.
\<close>

definition IsSpace :: "rune \<Rightarrow> bool" where
  "IsSpace r =
     (if r \<le> 0xFF then
        r = 0x09 \<or> r = 0x0A \<or> r = 0x0B \<or> r = 0x0C \<or> r = 0x0D \<or> r = 0x20 \<or>
        r = 0x85 \<or> r = 0xA0
      else
        r = 0x1680 \<or> (0x2000 \<le> r \<and> r \<le> 0x200A) \<or> r = 0x2028 \<or> r = 0x2029 \<or>
        r = 0x202F \<or> r = 0x205F \<or> r = 0x3000)"

definition rune_of :: "byte \<Rightarrow> rune" where
  "rune_of char = ucast char"

definition isSpace :: "byte \<Rightarrow> bool" where
  "isSpace char = IsSpace (rune_of char)"

subsection \<open>\<^verbatim>\<open>count\<close>\<close>

text \<open>
  The body of the inner loop, for one byte: the state is the counters and \<open>inWord\<close>.
\<close>

definition count_byte :: "byte \<Rightarrow> Counts \<times> bool \<Rightarrow> Counts \<times> bool" where
  "count_byte char st =
     (let (counts, inWord) = st;
          counts = (if char = 0x0A then counts\<lparr>Lines := Lines counts + 1\<rparr> else counts)
      in if isSpace char then (counts, False)
         else if \<not> inWord then (counts\<lparr>Words := Words counts + 1\<rparr>, True)
         else (counts, inWord))"

text \<open>The inner loop \<^verbatim>\<open>for i := 0; i < n; i++\<close> over the bytes just read.\<close>

fun count_chunk :: "byte list \<Rightarrow> Counts \<times> bool \<Rightarrow> Counts \<times> bool" where
  "count_chunk [] st = st"
| "count_chunk (char # rest) st = count_chunk rest (count_byte char st)"

text \<open>
  One pass of the outer loop up to the error check: \<^verbatim>\<open>counts.Bytes += int64(n)\<close>, then
  the inner loop.
\<close>

definition count_read :: "byte list \<Rightarrow> Counts \<times> bool \<Rightarrow> Counts \<times> bool" where
  "count_read bs st =
     (let (counts, inWord) = st
      in count_chunk bs (counts\<lparr>Bytes := Bytes counts + of_nat (length bs)\<rparr>, inWord))"

text \<open>
  The outer loop: it goes on while \<open>err\<close> is nil, leaves with no error at \<^verbatim>\<open>io.EOF\<close>, and
  returns the counters so far with the wrapped error otherwise.
\<close>

fun count_loop :: "reader \<Rightarrow> Counts \<times> bool \<Rightarrow> Counts \<times> error option" where
  "count_loop (Chunk bs r) st = count_loop r (count_read bs st)"
| "count_loop (Eof bs) st = (fst (count_read bs st), None)"
| "count_loop (Fail bs e) st =
     (fst (count_read bs st), Some (''error reading input: '' @ e))"

definition count :: "reader \<Rightarrow> Counts \<times> error option" where
  "count reader = count_loop reader (\<lparr>Lines = 0, Words = 0, Bytes = 0\<rparr>, False)"

subsection \<open>\<^verbatim>\<open>formatOutput\<close>\<close>

text \<open>
  \<^verbatim>\<open>fmt.Sprintf("%*d", width, v)\<close> writes the signed decimal numeral of \<open>v\<close>, with spaces in
  front of it up to \<open>width\<close> characters; a numeral longer than that is written in full.
\<close>

fun decimal :: "nat \<Rightarrow> string" where
  "decimal n =
     (if n < 10 then [''0123456789'' ! n]
      else decimal (n div 10) @ [''0123456789'' ! (n mod 10)])"

declare decimal.simps [simp del]

definition format_d :: "int \<Rightarrow> string" where
  "format_d v = (if v < 0 then ''-'' @ decimal (nat (- v)) else decimal (nat v))"

definition pad_left :: "nat \<Rightarrow> string \<Rightarrow> string" where
  "pad_left width s = replicate (width - length s) (CHR '' '') @ s"

definition sprintf_width_d :: "nat \<Rightarrow> int64 \<Rightarrow> string" where
  "sprintf_width_d width v = pad_left width (format_d (sint v))"

text \<open>\<^verbatim>\<open>strings.Join(parts, "")\<close> is the concatenation of the parts.\<close>

definition formatOutput :: "Counts \<Rightarrow> Flags \<Rightarrow> string \<Rightarrow> string" where
  "formatOutput counts flags filename =
     (let width = 8;
          parts = [];
          parts = (if ShowLines flags
                   then parts @ [sprintf_width_d width (Lines counts)] else parts);
          parts = (if ShowWords flags
                   then parts @ [sprintf_width_d width (Words counts)] else parts);
          parts = (if ShowBytes flags
                   then parts @ [sprintf_width_d width (Bytes counts)] else parts);
          parts = (if filename \<noteq> [] then parts @ ['' '' @ filename] else parts)
      in concat parts)"

subsection \<open>\<^verbatim>\<open>main\<close>\<close>

text \<open>
  The state of a run: what is left of standard input, the lines written to the two
  output streams, the three variables of \<^verbatim>\<open>main\<close>, the files opened so far (each
  \<^verbatim>\<open>os.Open\<close> that succeeds returns a new file, numbered in order), the pending deferred
  \<^verbatim>\<open>file.Close()\<close> calls (latest first), and the trace of opens and closes.

  Standard input is given as the behaviours it shows to the successive calls
  \<^verbatim>\<open>count(os.Stdin)\<close>; once they are used up it is at end of file. The file system is a
  function from a path to the result of \<^verbatim>\<open>os.Open\<close>: an error, or the opened file as a
  reader. Flag parsing is the \<^verbatim>\<open>flag\<close> package's: \<open>main\<close> starts from the parsed flags and
  the positional arguments. \<^verbatim>\<open>filesProcessed\<close> is an \<^verbatim>\<open>int\<close> that never exceeds the number
  of arguments, itself an \<^verbatim>\<open>int\<close>, so it is a natural number here.
\<close>

datatype event = Open nat string | Close nat

record state =
  stdin :: "reader list"
  stdout :: "string list"
  stderr :: "string list"
  totalCounts :: Counts
  filesProcessed :: nat
  errorsOccurred :: bool
  opened :: nat
  deferred :: "nat list"
  events :: "event list"

definition take_stdin :: "state \<Rightarrow> reader \<times> state" where
  "take_stdin s = (case stdin s of [] \<Rightarrow> (Eof [], s) | r # rs \<Rightarrow> (r, s\<lparr>stdin := rs\<rparr>))"

definition add_counts :: "Counts \<Rightarrow> Counts \<Rightarrow> Counts" where
  "add_counts totals counts =
     \<lparr>Lines = Lines totals + Lines counts,
      Words = Words totals + Words counts,
      Bytes = Bytes totals + Bytes counts\<rparr>"

text \<open>
  The loop body from \<^verbatim>\<open>counts, err := count(currentReader)\<close> on; \<open>file\<close> is \<open>None\<close> for
  standard input (\<^verbatim>\<open>file == nil\<close>).
\<close>

definition count_source ::
    "Flags \<Rightarrow> string \<Rightarrow> string \<Rightarrow> nat option \<Rightarrow> reader \<Rightarrow> state \<Rightarrow> state" where
  "count_source flags prog filename file currentReader s =
     (case count currentReader of
        (counts, Some err) \<Rightarrow>
          s\<lparr>stderr := stderr s @ [prog @ '': '' @ filename @ '': '' @ err],
            errorsOccurred := True,
            events := events s @ (case file of None \<Rightarrow> [] | Some f \<Rightarrow> [Close f])\<rparr>
      | (counts, None) \<Rightarrow>
          s\<lparr>stdout := stdout s @ [formatOutput counts flags filename],
            totalCounts := add_counts (totalCounts s) counts,
            filesProcessed := Suc (filesProcessed s)\<rparr>)"

text \<open>The whole loop body, for one argument.\<close>

definition process_file ::
    "(string \<Rightarrow> error + reader) \<Rightarrow> Flags \<Rightarrow> string \<Rightarrow> string \<Rightarrow> state \<Rightarrow> state" where
  "process_file fs flags prog filename s =
     (if filename = ''-'' then
        (let (currentReader, s) = take_stdin s
         in count_source flags prog [] None currentReader s)
      else
        (case fs filename of
           Inl err \<Rightarrow>
             s\<lparr>stderr := stderr s @ [prog @ '': '' @ filename @ '': '' @ err],
               errorsOccurred := True\<rparr>
         | Inr currentReader \<Rightarrow>
             (let file = opened s;
                  s = s\<lparr>opened := Suc file,
                        events := events s @ [Open file filename],
                        deferred := file # deferred s\<rparr>
              in count_source flags prog filename (Some file) currentReader s)))"

fun process_files ::
    "(string \<Rightarrow> error + reader) \<Rightarrow> Flags \<Rightarrow> string \<Rightarrow> string list \<Rightarrow> state \<Rightarrow> state" where
  "process_files fs flags prog [] s = s"
| "process_files fs flags prog (filename # rest) s =
     process_files fs flags prog rest (process_file fs flags prog filename s)"

definition default_flags :: "Flags \<Rightarrow> Flags" where
  "default_flags flags =
     (if \<not> ShowLines flags \<and> \<not> ShowWords flags \<and> \<not> ShowBytes flags
      then \<lparr>ShowLines = True, ShowWords = True, ShowBytes = True\<rparr> else flags)"

definition start :: "reader list \<Rightarrow> state" where
  "start input =
     \<lparr>stdin = input, stdout = [], stderr = [],
      totalCounts = \<lparr>Lines = 0, Words = 0, Bytes = 0\<rparr>,
      filesProcessed = 0, errorsOccurred = False,
      opened = 0, deferred = [], events = []\<rparr>"

text \<open>
  The end of \<^verbatim>\<open>main\<close>: \<^verbatim>\<open>os.Exit(1)\<close> ends the process at once, and the deferred calls
  are not run; returning from \<^verbatim>\<open>main\<close> runs them, latest first, and the status is 0.
\<close>

definition leave :: "state \<Rightarrow> nat \<times> state" where
  "leave s =
     (if errorsOccurred s then (1, s)
      else (0, s\<lparr>events := events s @ map Close (deferred s), deferred := []\<rparr>))"

definition main ::
    "(string \<Rightarrow> error + reader) \<Rightarrow> reader list \<Rightarrow> string \<Rightarrow> Flags \<Rightarrow> string list
      \<Rightarrow> nat \<times> state" where
  "main fs input prog parsed filenames =
     (let flags = default_flags parsed;
          s = start input
      in if filenames = [] then
           (let (r, s) = take_stdin s
            in case count r of
                 (counts, Some err) \<Rightarrow> (1, s\<lparr>stderr := stderr s @ [prog @ '': '' @ err]\<rparr>)
               | (counts, None) \<Rightarrow>
                   leave (s\<lparr>stdout := stdout s @ [formatOutput counts flags []],
                            filesProcessed := 1,
                            totalCounts := counts\<rparr>))
         else
           (let s = process_files fs flags prog filenames s;
                s = (if 1 < filesProcessed s
                     then s\<lparr>stdout := stdout s @ [formatOutput (totalCounts s) flags ''total'']\<rparr>
                     else s)
            in leave s))"

section \<open>Notions of the specification\<close>

text \<open>The number of newline bytes of a byte sequence.\<close>

definition newlines :: "byte list \<Rightarrow> nat" where
  "newlines s = length (filter (\<lambda>b. b = 0x0A) s)"

text \<open>
  A maximal run of \<open>s\<close> is a non-empty interval \<open>[i, j)\<close> of positions that hold no
  whitespace byte, with whitespace or the boundary of \<open>s\<close> on either side.
\<close>

definition is_run :: "byte list \<Rightarrow> nat \<Rightarrow> nat \<Rightarrow> bool" where
  "is_run s i j \<longleftrightarrow>
     i < j \<and> j \<le> length s \<and> (\<forall>k\<in>{i..<j}. \<not> isSpace (s ! k)) \<and>
     (i = 0 \<or> isSpace (s ! (i - 1))) \<and> (j = length s \<or> isSpace (s ! j))"

definition maximal_runs :: "byte list \<Rightarrow> (nat \<times> nat) set" where
  "maximal_runs s = {(i, j). is_run s i j}"

text \<open>
  A byte sequence delivered \<open>k\<close> bytes at a time, as a file delivers it to a buffer of
  length \<open>k\<close>: full chunks, the rest, and then \<open>(0, io.EOF)\<close>.
\<close>

function chunked :: "nat \<Rightarrow> byte list \<Rightarrow> reader" where
  "chunked k s =
     (if s = [] \<or> k = 0 then Eof [] else Chunk (take k s) (chunked k (drop k s)))"
  by pat_completeness auto
termination
  by (relation "measure (\<lambda>(k, s). length s)") auto

declare chunked.simps [simp del]

text \<open>
  What becomes of each argument of a run, told without the bookkeeping of \<open>main\<close>: the
  reader it stands for, and the error or the counts it ends with. An argument \<open>-\<close> uses
  up one behaviour of standard input.
\<close>

definition source_result ::
    "(string \<Rightarrow> error + reader) \<Rightarrow> reader list \<Rightarrow> string \<Rightarrow> error + Counts" where
  "source_result fs input name =
     (case (if name = ''-'' then Inr (case input of [] \<Rightarrow> Eof [] | r # rs \<Rightarrow> r)
            else fs name) of
        Inl e \<Rightarrow> Inl e
      | Inr r \<Rightarrow> (case count r of (c, Some e) \<Rightarrow> Inl e | (c, None) \<Rightarrow> Inr c))"

fun results ::
    "(string \<Rightarrow> error + reader) \<Rightarrow> reader list \<Rightarrow> string list
      \<Rightarrow> (string \<times> (error + Counts)) list" where
  "results fs input [] = []"
| "results fs input (name # rest) =
     (name, source_result fs input name) #
       results fs (if name = ''-'' then tl input else input) rest"

definition display :: "string \<Rightarrow> string" where
  "display name = (if name = ''-'' then [] else name)"

fun counted :: "(string \<times> (error + Counts)) list \<Rightarrow> (string \<times> Counts) list" where
  "counted [] = []"
| "counted ((name, Inl e) # rest) = counted rest"
| "counted ((name, Inr c) # rest) = (display name, c) # counted rest"

fun failed :: "(string \<times> (error + Counts)) list \<Rightarrow> (string \<times> error) list" where
  "failed [] = []"
| "failed ((name, Inl e) # rest) = (display name, e) # failed rest"
| "failed ((name, Inr c) # rest) = failed rest"

text \<open>The lines that \<open>main\<close> writes for a source: its counts, or its diagnostic.\<close>

definition result_line :: "Flags \<Rightarrow> string \<times> Counts \<Rightarrow> string" where
  "result_line flags nc = formatOutput (snd nc) flags (fst nc)"

definition diagnostic :: "string \<Rightarrow> string \<times> error \<Rightarrow> string" where
  "diagnostic prog ne = prog @ '': '' @ fst ne @ '': '' @ snd ne"

definition sum_counts :: "Counts list \<Rightarrow> Counts" where
  "sum_counts cs = foldl add_counts \<lparr>Lines = 0, Words = 0, Bytes = 0\<rparr> cs"

section \<open>The counter\<close>

subsection \<open>The loops, read as one pass over the whole stream\<close>

lemma sint_of_nat_small: "n < 2 ^ 63 \<Longrightarrow> sint (of_nat n :: int64) = int n"
proof -
  assume "n < 2 ^ 63"
  then have "int n < 2 ^ 63" by (simp add: of_nat_less_numeral_power_cancel_iff)
  moreover have "- (2 ^ 63) \<le> int n" by simp
  ultimately show ?thesis
    by (simp add: signed_of_nat signed_take_bit_int_eq_self_iff)
qed

lemma count_chunk_append:
  "count_chunk (xs @ ys) st = count_chunk ys (count_chunk xs st)"
  by (induction xs arbitrary: st) simp_all

lemma count_byte_Bytes:
  "count_byte x (c\<lparr>Bytes := b\<rparr>, w) =
     ((fst (count_byte x (c, w)))\<lparr>Bytes := b\<rparr>, snd (count_byte x (c, w)))"
  by (simp add: count_byte_def Let_def)

lemma count_chunk_Bytes:
  "count_chunk bs (c\<lparr>Bytes := b\<rparr>, w) =
     ((fst (count_chunk bs (c, w)))\<lparr>Bytes := b\<rparr>, snd (count_chunk bs (c, w)))"
proof (induction bs arbitrary: c w)
  case Nil
  show ?case by simp
next
  case (Cons x xs)
  obtain c' w' where cw: "count_byte x (c, w) = (c', w')"
    by (cases "count_byte x (c, w)")
  show ?case
    by (simp add: count_byte_Bytes cw Cons.IH)
qed

lemma count_byte_keeps_Bytes: "Bytes (fst (count_byte x (c, w))) = Bytes c"
  by (simp add: count_byte_def Let_def)

lemma count_chunk_keeps_Bytes: "Bytes (fst (count_chunk bs (c, w))) = Bytes c"
proof (induction bs arbitrary: c w)
  case Nil
  show ?case by simp
next
  case (Cons x xs)
  obtain c' w' where cw: "count_byte x (c, w) = (c', w')"
    by (cases "count_byte x (c, w)")
  from count_byte_keeps_Bytes [of x c w] cw have "Bytes c' = Bytes c" by simp
  with Cons.IH [of c' w'] cw show ?case by simp
qed

lemma count_read_split:
  "count_read bs (c, w) =
     ((fst (count_chunk bs (c, w)))\<lparr>Bytes := Bytes c + of_nat (length bs)\<rparr>,
      snd (count_chunk bs (c, w)))"
  by (simp add: count_read_def count_chunk_Bytes)

text \<open>
  Only \<open>inWord\<close> and the counters pass from one \<^verbatim>\<open>Read\<close> to the next, so the outer loop
  does to the chunks what the inner loop would do to their concatenation.
\<close>

lemma count_loop_stream:
  "count_loop r (c, w) =
     ((fst (count_chunk (stream r) (c, w)))\<lparr>Bytes := Bytes c + of_nat (length (stream r))\<rparr>,
      map_option ((@) ''error reading input: '') (ending r))"
proof (induction r arbitrary: c w)
  case (Chunk bs r)
  obtain c' w' where cw: "count_chunk bs (c, w) = (c', w')"
    by (cases "count_chunk bs (c, w)")
  from count_chunk_keeps_Bytes [of bs c w] cw have b: "Bytes c' = Bytes c" by simp
  show ?case
    by (simp add: count_read_split cw Chunk.IH count_chunk_append count_chunk_Bytes b add.assoc)
next
  case (Eof bs)
  show ?case by (simp add: count_read_split)
next
  case (Fail bs e)
  show ?case by (simp add: count_read_split)
qed

lemma count_stream:
  "count r =
     ((fst (count_chunk (stream r) (\<lparr>Lines = 0, Words = 0, Bytes = 0\<rparr>, False)))
        \<lparr>Bytes := of_nat (length (stream r))\<rparr>,
      map_option ((@) ''error reading input: '') (ending r))"
  by (simp add: count_def count_loop_stream)

subsection \<open>Bytes\<close>

lemma Bytes_count: "Bytes (fst (count r)) = of_nat (length (stream r))"
  by (simp add: count_stream)

text \<open>
  C4. The \<open>Bytes\<close> field of the counts that \<open>count\<close> returns is the length of the stream,
  as an \<^verbatim>\<open>int64\<close>; read as a signed number it is exactly the length for every stream
  shorter than \<open>2^63\<close> bytes, the range of the field. A reader that delivers nothing
  and ends at end of file yields \<open>Counts{0, 0, 0}\<close> and no error.
\<close>

theorem count_bytes_is_length:
  "Bytes (fst (count r)) = of_nat (length (stream r)) \<and>
   (length (stream r) < 2 ^ 63 \<longrightarrow> sint (Bytes (fst (count r))) = int (length (stream r))) \<and>
   (stream r = [] \<and> ending r = None \<longrightarrow>
      count r = (\<lparr>Lines = 0, Words = 0, Bytes = 0\<rparr>, None))"
proof (intro conjI impI)
  show "Bytes (fst (count r)) = of_nat (length (stream r))"
    by (rule Bytes_count)
  show "sint (Bytes (fst (count r))) = int (length (stream r))"
    if "length (stream r) < 2 ^ 63"
    using that by (simp add: Bytes_count sint_of_nat_small)
  show "count r = (\<lparr>Lines = 0, Words = 0, Bytes = 0\<rparr>, None)"
    if "stream r = [] \<and> ending r = None"
    using that by (simp add: count_stream)
qed

text \<open>The stream \<open>hello world\<close> with its newline, in two reads, and the empty stream.\<close>

theorem count_bytes_is_length_witness:
  "sint (Bytes (fst (count (Chunk [104, 101, 108, 108, 111, 32]
                             (Eof [119, 111, 114, 108, 100, 10]))))) = 12 \<and>
   count (Eof []) = (\<lparr>Lines = 0, Words = 0, Bytes = 0\<rparr>, None)"
  using count_bytes_is_length [of "Chunk [104, 101, 108, 108, 111, 32]
                                     (Eof [119, 111, 114, 108, 100, 10])"]
    count_bytes_is_length [of "Eof []"]
  by simp

subsection \<open>Lines\<close>

lemma count_byte_Lines:
  "Lines (fst (count_byte x (c, w))) = Lines c + (if x = 0x0A then 1 else 0)"
  by (simp add: count_byte_def Let_def)

lemma count_chunk_Lines:
  "Lines (fst (count_chunk bs (c, w))) = Lines c + of_nat (newlines bs)"
proof (induction bs arbitrary: c w)
  case Nil
  show ?case by (simp add: newlines_def)
next
  case (Cons x xs)
  obtain c' w' where cw: "count_byte x (c, w) = (c', w')"
    by (cases "count_byte x (c, w)")
  from count_byte_Lines [of x c w] cw
  have "Lines c' = Lines c + (if x = 0x0A then 1 else 0)" by simp
  with Cons.IH [of c' w'] cw show ?case by (simp add: newlines_def)
qed

lemma Lines_count: "Lines (fst (count r)) = of_nat (newlines (stream r))"
  by (simp add: count_stream count_chunk_Lines)

text \<open>
  C3. The \<open>Lines\<close> field is the number of bytes of the stream that are equal to 10, as an
  \<^verbatim>\<open>int64\<close>, and exactly that number when read as a signed number, as long as it is
  in the range of the field. One more byte at the end of the stream adds one line when
  it is the byte 10 and none otherwise, carriage return (13) included; a stream with
  no newline at its end has the lines of its newline bytes only.
\<close>

theorem count_lines_is_newlines:
  "Lines (fst (count r)) = of_nat (newlines (stream r)) \<and>
   (newlines (stream r) < 2 ^ 63 \<longrightarrow>
      sint (Lines (fst (count r))) = int (newlines (stream r))) \<and>
   Lines (fst (count (Eof (s @ [b])))) =
     Lines (fst (count (Eof s))) + (if b = 0x0A then 1 else 0)"
proof (intro conjI impI)
  show "Lines (fst (count r)) = of_nat (newlines (stream r))"
    by (rule Lines_count)
  show "sint (Lines (fst (count r))) = int (newlines (stream r))"
    if "newlines (stream r) < 2 ^ 63"
    using that by (simp add: Lines_count sint_of_nat_small)
  show "Lines (fst (count (Eof (s @ [b])))) =
      Lines (fst (count (Eof s))) + (if b = 0x0A then 1 else 0)"
    by (simp add: Lines_count newlines_def)
qed

text \<open>
  The bytes of \<open>a\<close>, newline, \<open>b\<close>, carriage return, newline, \<open>c\<close>: two lines, though the
  stream does not end with a newline and holds a carriage return.
\<close>

theorem count_lines_is_newlines_witness:
  "newlines [97, 10, 98, 13, 10, 99] = 2 \<and>
   sint (Lines (fst (count (Chunk [97, 10, 98] (Eof [13, 10, 99]))))) = 2"
  using count_lines_is_newlines [of "Chunk [97, 10, 98] (Eof [13, 10, 99])"]
  by (simp add: newlines_def)

subsection \<open>Words\<close>

lemma finite_maximal_runs: "finite (maximal_runs s)"
proof (rule finite_subset)
  show "maximal_runs s \<subseteq> {..length s} \<times> {..length s}"
    by (auto simp: maximal_runs_def is_run_def)
  show "finite ({..length s} \<times> {..length s})" by simp
qed

lemma is_run_snoc_space:
  assumes sp: "isSpace x"
  shows "is_run (xs @ [x]) i j \<longleftrightarrow> is_run xs i j"
proof
  assume r: "is_run (xs @ [x]) i j"
  have "j \<noteq> Suc (length xs)"
  proof
    assume j: "j = Suc (length xs)"
    with r have "length xs \<in> {i..<j}" by (auto simp: is_run_def)
    with r have "\<not> isSpace ((xs @ [x]) ! length xs)" unfolding is_run_def by blast
    with sp show False by simp
  qed
  with r have j: "j \<le> length xs" by (auto simp: is_run_def)
  with r show "is_run xs i j"
    by (auto simp: is_run_def nth_append split: if_splits)
next
  assume r: "is_run xs i j"
  then show "is_run (xs @ [x]) i j"
    using sp by (auto simp: is_run_def nth_append)
qed

lemma runs_snoc_space:
  assumes "isSpace x"
  shows "maximal_runs (xs @ [x]) = maximal_runs xs"
  by (simp add: maximal_runs_def is_run_snoc_space [OF assms])

lemma is_run_snoc_start:
  assumes nsp: "\<not> isSpace x" and b: "xs = [] \<or> isSpace (last xs)"
  shows "is_run (xs @ [x]) i j \<longleftrightarrow> (i = length xs \<and> j = Suc (length xs)) \<or> is_run xs i j"
proof
  assume r: "is_run (xs @ [x]) i j"
  show "(i = length xs \<and> j = Suc (length xs)) \<or> is_run xs i j"
  proof (cases "j = Suc (length xs)")
    case True
    have "i = length xs"
    proof (rule ccontr)
      assume "i \<noteq> length xs"
      with r True have i: "i < length xs" by (auto simp: is_run_def)
      then have ne: "xs \<noteq> []" by auto
      from i True have "length xs - 1 \<in> {i..<j}" by auto
      with r have "\<not> isSpace ((xs @ [x]) ! (length xs - 1))" unfolding is_run_def by blast
      with ne have "\<not> isSpace (last xs)" by (simp add: nth_append last_conv_nth)
      with b ne show False by simp
    qed
    with True show ?thesis by simp
  next
    case False
    with r have j: "j \<le> length xs" by (auto simp: is_run_def)
    have "j \<noteq> length xs"
    proof
      assume "j = length xs"
      with r have "isSpace ((xs @ [x]) ! length xs)" by (auto simp: is_run_def)
      with nsp show False by simp
    qed
    with j have "j < length xs" by simp
    with r have "is_run xs i j" by (auto simp: is_run_def nth_append split: if_splits)
    then show ?thesis ..
  qed
next
  assume "(i = length xs \<and> j = Suc (length xs)) \<or> is_run xs i j"
  then show "is_run (xs @ [x]) i j"
  proof
    assume ij: "i = length xs \<and> j = Suc (length xs)"
    show ?thesis
    proof (cases "xs = []")
      case True
      with ij nsp show ?thesis by (simp add: is_run_def)
    next
      case False
      with b have "isSpace (xs ! (length xs - 1))" by (simp add: last_conv_nth)
      with ij nsp False show ?thesis by (simp add: is_run_def nth_append)
    qed
  next
    assume r: "is_run xs i j"
    have "j \<noteq> length xs"
    proof
      assume j: "j = length xs"
      with r have ne: "xs \<noteq> []" by (auto simp: is_run_def)
      from r j have "length xs - 1 \<in> {i..<j}" by (auto simp: is_run_def)
      with r have "\<not> isSpace (xs ! (length xs - 1))" unfolding is_run_def by blast
      with ne b show False by (simp add: last_conv_nth)
    qed
    with r show ?thesis by (auto simp: is_run_def nth_append)
  qed
qed

lemma runs_snoc_start:
  assumes "\<not> isSpace x" and "xs = [] \<or> isSpace (last xs)"
  shows "maximal_runs (xs @ [x]) = insert (length xs, Suc (length xs)) (maximal_runs xs)"
  by (auto simp: maximal_runs_def is_run_snoc_start [OF assms])

lemma is_run_snoc_extend:
  assumes nsp: "\<not> isSpace x" and ne: "xs \<noteq> []" and l: "\<not> isSpace (last xs)"
  shows "is_run (xs @ [x]) i j \<longleftrightarrow>
     (j = Suc (length xs) \<and> is_run xs i (length xs)) \<or> (j < length xs \<and> is_run xs i j)"
proof
  assume r: "is_run (xs @ [x]) i j"
  have jn: "j \<noteq> length xs"
  proof
    assume "j = length xs"
    with r have "isSpace ((xs @ [x]) ! length xs)" by (auto simp: is_run_def)
    with nsp show False by simp
  qed
  show "(j = Suc (length xs) \<and> is_run xs i (length xs)) \<or> (j < length xs \<and> is_run xs i j)"
  proof (cases "j = Suc (length xs)")
    case True
    have "i \<noteq> length xs"
    proof
      assume i: "i = length xs"
      with r ne have "isSpace ((xs @ [x]) ! (length xs - 1))" by (auto simp: is_run_def)
      with ne l show False by (simp add: nth_append last_conv_nth)
    qed
    with r True have "i < length xs" by (auto simp: is_run_def)
    with r True have "is_run xs i (length xs)"
      by (auto simp: is_run_def nth_append split: if_splits)
    with True show ?thesis by simp
  next
    case False
    with r jn have "j < length xs" by (auto simp: is_run_def)
    with r show ?thesis by (auto simp: is_run_def nth_append split: if_splits)
  qed
next
  assume "(j = Suc (length xs) \<and> is_run xs i (length xs)) \<or> (j < length xs \<and> is_run xs i j)"
  then show "is_run (xs @ [x]) i j"
  proof
    assume "j = Suc (length xs) \<and> is_run xs i (length xs)"
    with nsp show ?thesis
      by (auto simp: is_run_def nth_append less_Suc_eq)
  next
    assume "j < length xs \<and> is_run xs i j"
    then show ?thesis by (auto simp: is_run_def nth_append)
  qed
qed

lemma runs_snoc_extend:
  assumes "\<not> isSpace x" and "xs \<noteq> []" and "\<not> isSpace (last xs)"
  shows "maximal_runs (xs @ [x]) =
     (\<lambda>(i, j). (i, if j = length xs then Suc j else j)) ` maximal_runs xs"
proof (rule set_eqI)
  fix p :: "nat \<times> nat"
  obtain i j where p: "p = (i, j)" by (cases p)
  show "p \<in> maximal_runs (xs @ [x]) \<longleftrightarrow>
        p \<in> (\<lambda>(i, j). (i, if j = length xs then Suc j else j)) ` maximal_runs xs"
  proof
    assume "p \<in> maximal_runs (xs @ [x])"
    with p have "is_run (xs @ [x]) i j" by (simp add: maximal_runs_def)
    then have "(j = Suc (length xs) \<and> is_run xs i (length xs)) \<or> (j < length xs \<and> is_run xs i j)"
      by (simp add: is_run_snoc_extend [OF assms])
    then show "p \<in> (\<lambda>(i, j). (i, if j = length xs then Suc j else j)) ` maximal_runs xs"
    proof
      assume a: "j = Suc (length xs) \<and> is_run xs i (length xs)"
      then have "(i, length xs) \<in> maximal_runs xs" by (simp add: maximal_runs_def)
      then have "(\<lambda>(i, j). (i, if j = length xs then Suc j else j)) (i, length xs)
          \<in> (\<lambda>(i, j). (i, if j = length xs then Suc j else j)) ` maximal_runs xs"
        by (rule imageI)
      with a p show ?thesis by simp
    next
      assume a: "j < length xs \<and> is_run xs i j"
      then have "(i, j) \<in> maximal_runs xs" by (simp add: maximal_runs_def)
      then have "(\<lambda>(i, j). (i, if j = length xs then Suc j else j)) (i, j)
          \<in> (\<lambda>(i, j). (i, if j = length xs then Suc j else j)) ` maximal_runs xs"
        by (rule imageI)
      with a p show ?thesis by simp
    qed
  next
    assume "p \<in> (\<lambda>(i, j). (i, if j = length xs then Suc j else j)) ` maximal_runs xs"
    then obtain i' j' where r: "is_run xs i' j'"
      and q: "p = (i', if j' = length xs then Suc j' else j')"
      by (auto simp: maximal_runs_def)
    from r have "j' \<le> length xs" by (simp add: is_run_def)
    with r q have "is_run (xs @ [x]) (fst p) (snd p)"
      by (auto simp: is_run_snoc_extend [OF assms])
    then show "p \<in> maximal_runs (xs @ [x])" by (cases p) (simp add: maximal_runs_def)
  qed
qed

lemma inj_on_shift_end:
  "inj_on (\<lambda>(i, j). (i, if j = length xs then Suc j else j)) (maximal_runs xs)"
proof (rule inj_onI)
  fix p q :: "nat \<times> nat"
  assume p: "p \<in> maximal_runs xs" and q: "q \<in> maximal_runs xs"
    and e: "(\<lambda>(i, j). (i, if j = length xs then Suc j else j)) p =
            (\<lambda>(i, j). (i, if j = length xs then Suc j else j)) q"
  from p have "snd p \<le> length xs" by (auto simp: maximal_runs_def is_run_def)
  moreover from q have "snd q \<le> length xs" by (auto simp: maximal_runs_def is_run_def)
  ultimately show "p = q" using e
    by (cases p, cases q) (auto split: if_splits)
qed

lemma card_runs_snoc:
  "card (maximal_runs (xs @ [x])) =
     card (maximal_runs xs) +
       (if \<not> isSpace x \<and> (xs = [] \<or> isSpace (last xs)) then 1 else 0)"
proof (cases "isSpace x")
  case True
  then show ?thesis by (simp add: runs_snoc_space)
next
  case nsp: False
  show ?thesis
  proof (cases "xs = [] \<or> isSpace (last xs)")
    case True
    have "(length xs, Suc (length xs)) \<notin> maximal_runs xs"
      by (simp add: maximal_runs_def is_run_def)
    with nsp True show ?thesis
      by (simp add: runs_snoc_start finite_maximal_runs)
  next
    case False
    with nsp show ?thesis
      by (simp add: runs_snoc_extend card_image inj_on_shift_end)
  qed
qed

lemma card_runs_le_length: "card (maximal_runs s) \<le> length s"
proof (induction s rule: rev_induct)
  case Nil
  have "maximal_runs [] = {}" by (auto simp: maximal_runs_def is_run_def)
  then show ?case by simp
next
  case (snoc x xs)
  then show ?case by (simp add: card_runs_snoc)
qed

lemma newlines_le_length: "newlines s \<le> length s"
  by (simp add: newlines_def)

lemma count_byte_Words:
  "Words (fst (count_byte x (c, w))) = Words c + (if \<not> isSpace x \<and> \<not> w then 1 else 0)"
  by (simp add: count_byte_def Let_def)

lemma count_byte_inWord: "snd (count_byte x (c, w)) = (\<not> isSpace x)"
  by (simp add: count_byte_def Let_def)

lemma count_chunk_snoc: "count_chunk (xs @ [x]) st = count_byte x (count_chunk xs st)"
  by (simp add: count_chunk_append)

lemma count_chunk_inWord:
  "snd (count_chunk xs (c, w)) = (if xs = [] then w else \<not> isSpace (last xs))"
proof (induction xs rule: rev_induct)
  case Nil
  show ?case by simp
next
  case (snoc x xs)
  obtain c' w' where cw: "count_chunk xs (c, w) = (c', w')"
    by (cases "count_chunk xs (c, w)")
  show ?case by (simp add: count_chunk_snoc cw count_byte_inWord)
qed

lemma count_chunk_Words_runs:
  "Words (fst (count_chunk xs (c, False))) = Words c + of_nat (card (maximal_runs xs))"
proof (induction xs rule: rev_induct)
  case Nil
  have "maximal_runs [] = {}" by (auto simp: maximal_runs_def is_run_def)
  then show ?case by simp
next
  case (snoc x xs)
  obtain c' w' where cw: "count_chunk xs (c, False) = (c', w')"
    by (cases "count_chunk xs (c, False)")
  from count_chunk_inWord [of xs c False] cw
  have w': "w' = (xs \<noteq> [] \<and> \<not> isSpace (last xs))" by simp
  from snoc.IH cw have c': "Words c' = Words c + of_nat (card (maximal_runs xs))" by simp
  show ?case
    by (simp add: count_chunk_snoc cw count_byte_Words c' w' card_runs_snoc)
qed

lemma Words_count: "Words (fst (count r)) = of_nat (card (maximal_runs (stream r)))"
  by (simp add: count_stream count_chunk_Words_runs)

lemma count_chunk_Words_shift:
  "Words (fst (count_chunk xs (c, w))) =
     Words c + Words (fst (count_chunk xs (\<lparr>Lines = 0, Words = 0, Bytes = 0\<rparr>, w)))"
proof (induction xs arbitrary: c w)
  case Nil
  show ?case by simp
next
  case (Cons x xs)
  obtain c' w' where cw: "count_byte x (c, w) = (c', w')"
    by (cases "count_byte x (c, w)")
  obtain d' v' where dv: "count_byte x (\<lparr>Lines = 0, Words = 0, Bytes = 0\<rparr>, w) = (d', v')"
    by (cases "count_byte x (\<lparr>Lines = 0, Words = 0, Bytes = 0\<rparr>, w)")
  from count_byte_inWord [of x c w] cw have w': "w' = (\<not> isSpace x)" by simp
  from count_byte_inWord [of x "\<lparr>Lines = 0, Words = 0, Bytes = 0\<rparr>" w] dv
  have v': "v' = (\<not> isSpace x)" by simp
  from count_byte_Words [of x c w] cw
  have c': "Words c' = Words c + (if \<not> isSpace x \<and> \<not> w then 1 else 0)" by simp
  from count_byte_Words [of x "\<lparr>Lines = 0, Words = 0, Bytes = 0\<rparr>" w] dv
  have d': "Words d' = (if \<not> isSpace x \<and> \<not> w then 1 else 0)" by simp
  have "Words (fst (count_chunk (x # xs) (c, w))) = Words (fst (count_chunk xs (c', w')))"
    by (simp add: cw)
  also have "\<dots> = Words c' + Words (fst (count_chunk xs (\<lparr>Lines = 0, Words = 0, Bytes = 0\<rparr>, w')))"
    by (rule Cons.IH)
  finally have l: "Words (fst (count_chunk (x # xs) (c, w))) =
      Words c' + Words (fst (count_chunk xs (\<lparr>Lines = 0, Words = 0, Bytes = 0\<rparr>, w')))" .
  have "Words (fst (count_chunk (x # xs) (\<lparr>Lines = 0, Words = 0, Bytes = 0\<rparr>, w))) =
      Words (fst (count_chunk xs (d', v')))"
    by (simp add: dv)
  also have "\<dots> = Words d' + Words (fst (count_chunk xs (\<lparr>Lines = 0, Words = 0, Bytes = 0\<rparr>, v')))"
    by (rule Cons.IH)
  finally have r: "Words (fst (count_chunk (x # xs) (\<lparr>Lines = 0, Words = 0, Bytes = 0\<rparr>, w))) =
      Words d' + Words (fst (count_chunk xs (\<lparr>Lines = 0, Words = 0, Bytes = 0\<rparr>, w')))"
    by (simp add: w' v')
  show ?case unfolding l r c' d' by (simp add: add.assoc)
qed

text \<open>Entering a chunk inside a word saves one word when the chunk starts with a word.\<close>

lemma count_chunk_Words_inWord:
  "Words (fst (count_chunk xs (c, True))) + (if xs \<noteq> [] \<and> \<not> isSpace (hd xs) then 1 else 0) =
     Words (fst (count_chunk xs (c, False)))"
proof (cases xs)
  case Nil
  then show ?thesis by simp
next
  case (Cons x ys)
  show ?thesis
  proof (cases "isSpace x")
    case True
    then have "count_byte x (c, True) = count_byte x (c, False)"
      by (simp add: count_byte_def Let_def)
    with Cons True show ?thesis by simp
  next
    case False
    obtain c' w' where cw: "count_byte x (c, True) = (c', w')"
      by (cases "count_byte x (c, True)")
    with False have f: "count_byte x (c, False) = (c'\<lparr>Words := Words c' + 1\<rparr>, w')"
      by (auto simp: count_byte_def Let_def split: if_splits)
    have "Words (fst (count_chunk ys (c'\<lparr>Words := Words c' + 1\<rparr>, w'))) =
        Words c' + 1 + Words (fst (count_chunk ys (\<lparr>Lines = 0, Words = 0, Bytes = 0\<rparr>, w')))"
      by (subst count_chunk_Words_shift) simp
    moreover have "Words (fst (count_chunk ys (c', w'))) =
        Words c' + Words (fst (count_chunk ys (\<lparr>Lines = 0, Words = 0, Bytes = 0\<rparr>, w')))"
      by (rule count_chunk_Words_shift)
    ultimately show ?thesis using Cons False by (simp add: cw f)
  qed
qed

lemma Words_append:
  "Words (fst (count (Eof (A @ B)))) + (if A \<noteq> [] \<and> B \<noteq> [] \<and> \<not> isSpace (last A) \<and> \<not> isSpace (hd B) then 1 else 0) =
     Words (fst (count (Eof A))) + Words (fst (count (Eof B)))"
proof -
  let ?z = "\<lparr>Lines = 0, Words = 0, Bytes = 0\<rparr>"
  obtain c' w' where cw: "count_chunk A (?z, False) = (c', w')"
    by (cases "count_chunk A (?z, False)")
  from count_chunk_inWord [of A ?z False] cw
  have w': "w' = (A \<noteq> [] \<and> \<not> isSpace (last A))" by simp
  have A: "Words (fst (count (Eof A))) = Words c'"
    by (simp add: count_stream cw)
  have B: "Words (fst (count (Eof B))) = Words (fst (count_chunk B (?z, False)))"
    by (simp add: count_stream)
  have AB: "Words (fst (count (Eof (A @ B)))) = Words c' + Words (fst (count_chunk B (?z, w')))"
    by (simp add: count_stream count_chunk_append cw count_chunk_Words_shift [of B c' w'])
  show ?thesis
  proof (cases w')
    case True
    with count_chunk_Words_inWord [of B ?z] w' show ?thesis
      by (simp add: A B AB add.assoc)
  next
    case False
    with w' show ?thesis by (auto simp: A B AB)
  qed
qed


lemma uint_rune_of: "uint (rune_of b) = uint b"
  by (simp add: rune_of_def uint_up_ucast is_up)

lemma rune_of_le: "rune_of b \<le> 0xFF"
proof -
  have "uint b < 2 ^ 8" using uint_lt2p [of b] by simp
  then show ?thesis
    by (simp add: word_le_def uint_rune_of)
qed

lemma isSpace_bytes:
  "isSpace b \<longleftrightarrow>
     b = 0x09 \<or> b = 0x0A \<or> b = 0x0B \<or> b = 0x0C \<or> b = 0x0D \<or> b = 0x20 \<or>
     b = 0x85 \<or> b = 0xA0"
  by (simp add: isSpace_def IsSpace_def rune_of_le word_uint_eq_iff uint_rune_of)

text \<open>
  C1. The \<open>Words\<close> field is the number of maximal runs of non-whitespace bytes of the
  stream, as an \<^verbatim>\<open>int64\<close>, and exactly that number when read as a signed number, as long
  as it is in the range of the field. Whitespace is decided byte by byte, by
  \<^verbatim>\<open>unicode.IsSpace\<close> of the rune with the value of the byte: the whitespace bytes are
  \<open>09\<close> to \<open>0D\<close>, \<open>20\<close>, \<open>85\<close> and \<open>A0\<close>, whatever multi-byte sequence they are part of.
\<close>

theorem count_words_is_runs:
  "Words (fst (count r)) = of_nat (card (maximal_runs (stream r))) \<and>
   (card (maximal_runs (stream r)) < 2 ^ 63 \<longrightarrow>
      sint (Words (fst (count r))) = int (card (maximal_runs (stream r)))) \<and>
   (isSpace b \<longleftrightarrow>
      b = 0x09 \<or> b = 0x0A \<or> b = 0x0B \<or> b = 0x0C \<or> b = 0x0D \<or> b = 0x20 \<or>
      b = 0x85 \<or> b = 0xA0)"
proof (intro conjI impI)
  show "Words (fst (count r)) = of_nat (card (maximal_runs (stream r)))"
    by (rule Words_count)
  show "sint (Words (fst (count r))) = int (card (maximal_runs (stream r)))"
    if "card (maximal_runs (stream r)) < 2 ^ 63"
    using that by (simp add: Words_count sint_of_nat_small)
  show "isSpace b \<longleftrightarrow>
      b = 0x09 \<or> b = 0x0A \<or> b = 0x0B \<or> b = 0x0C \<or> b = 0x0D \<or> b = 0x20 \<or>
      b = 0x85 \<or> b = 0xA0"
    by (rule isSpace_bytes)
qed

text \<open>
  The four bytes \<open>62 C3 A0 63\<close> are the UTF-8 encoding of \<open>b\<close>, \<open>a\<close> with a grave accent,
  \<open>c\<close>. The byte \<open>A0\<close>, taken alone, is the no-break space, so the stream has two runs.
\<close>

theorem count_words_is_runs_witness:
  "card (maximal_runs [0x62, 0xC3, 0xA0, 0x63]) = 2 \<and>
   sint (Words (fst (count (Chunk [0x62, 0xC3] (Eof [0xA0, 0x63]))))) = 2"
proof -
  have "card (maximal_runs [0x62, 0xC3, 0xA0, 0x63]) \<le> 4"
    using card_runs_le_length [of "[0x62, 0xC3, 0xA0, 0x63]"] by simp
  then have small: "card (maximal_runs [0x62, 0xC3, 0xA0, 0x63]) < 2 ^ 63"
    by simp
  have words: "Words (fst (count (Chunk [0x62, 0xC3] (Eof [0xA0, 0x63])))) = 2"
    by (simp add: count_def count_read_def count_byte_def isSpace_def IsSpace_def rune_of_def)
  from count_words_is_runs [of "Chunk [0x62, 0xC3] (Eof [0xA0, 0x63])", THEN conjunct2,
      THEN conjunct1] small
  have "sint (Words (fst (count (Chunk [0x62, 0xC3] (Eof [0xA0, 0x63]))))) =
      int (card (maximal_runs [0x62, 0xC3, 0xA0, 0x63]))"
    by simp
  with words show ?thesis by simp
qed

subsection \<open>Chunk sizes\<close>

lemma stream_chunked: "0 < k \<Longrightarrow> stream (chunked k s) = s"
proof (induction k s rule: chunked.induct)
  case (1 k s)
  show ?case
  proof (cases "s = []")
    case True
    then show ?thesis by (subst chunked.simps) simp
  next
    case False
    with "1.prems" have "stream (chunked k (drop k s)) = drop k s"
      by (intro "1.IH") simp_all
    with False "1.prems" show ?thesis
      by (subst chunked.simps) simp
  qed
qed

lemma ending_chunked: "ending (chunked k s) = None"
proof (induction k s rule: chunked.induct)
  case (1 k s)
  show ?case
  proof (cases "s = [] \<or> k = 0")
    case True
    then show ?thesis by (subst chunked.simps) simp
  next
    case False
    with "1.IH" have "ending (chunked k (drop k s)) = None" by simp
    with False show ?thesis by (subst chunked.simps) simp
  qed
qed

lemma honours_chunked: "honours k (chunked k s)"
proof (induction k s rule: chunked.induct)
  case (1 k s)
  show ?case
  proof (cases "s = [] \<or> k = 0")
    case True
    then show ?thesis by (subst chunked.simps) simp
  next
    case False
    with "1.IH" have "honours k (chunked k (drop k s))" by simp
    with False show ?thesis by (subst chunked.simps) simp
  qed
qed

lemma count_chunked: "0 < k \<Longrightarrow> count (chunked k s) = count (Eof s)"
  by (simp add: count_stream stream_chunked ending_chunked)

text \<open>
  C2. A byte sequence \<open>S\<close> read one byte at a time gives the same result of \<open>count\<close>
  (counts and error) as \<open>S\<close> read in a single piece, and so does \<open>S\<close> read \<open>k\<close> bytes at a
  time for any \<open>k\<close> of at least 1, the 64 KiB of the source among them; every \<^verbatim>\<open>Read\<close> of
  that reader fits a buffer of length \<open>k\<close>. More generally, two readers that deliver the
  same bytes and end the same way give the same result, however the bytes are cut
  into reads.
\<close>

theorem count_chunk_size_invariant:
  "0 < k \<Longrightarrow>
     count (chunked 1 S) = count (Chunk S (Eof [])) \<and>
     count (chunked k S) = count (chunked 1 S) \<and>
     count (chunked bufferSize S) = count (chunked 1 S) \<and>
     stream (chunked k S) = S \<and> honours k (chunked k S) \<and>
     (stream r = stream r' \<and> ending r = ending r' \<longrightarrow> count r = count r')"
proof (intro conjI impI)
  assume k: "0 < k"
  show "count (chunked 1 S) = count (Chunk S (Eof []))"
    by (simp add: count_stream stream_chunked ending_chunked)
  from k show "count (chunked k S) = count (chunked 1 S)"
    by (simp add: count_chunked)
  show "count (chunked bufferSize S) = count (chunked 1 S)"
    by (simp add: count_chunked bufferSize_def)
  from k show "stream (chunked k S) = S"
    by (rule stream_chunked)
  show "honours k (chunked k S)"
    by (rule honours_chunked)
  show "count r = count r'" if "stream r = stream r' \<and> ending r = ending r'"
    using that by (simp add: count_stream)
qed

text \<open>
  The stream \<open>hello world\<close> with its newline, two bytes at a time, and cut into uneven
  reads the last of which comes with the end of file.
\<close>

theorem count_chunk_size_invariant_witness:
  "count (chunked 2 [104, 101, 108, 108, 111, 32, 119, 111, 114, 108, 100, 10]) =
     (\<lparr>Lines = 1, Words = 2, Bytes = 12\<rparr>, None) \<and>
   count (chunked 1 [104, 101, 108, 108, 111, 32, 119, 111, 114, 108, 100, 10]) =
     (\<lparr>Lines = 1, Words = 2, Bytes = 12\<rparr>, None) \<and>
   count (Chunk [104, 101, 108] (Chunk [] (Eof [108, 111, 32, 119, 111, 114, 108, 100, 10]))) =
     (\<lparr>Lines = 1, Words = 2, Bytes = 12\<rparr>, None)"
proof -
  let ?S = "[104, 101, 108, 108, 111, 32, 119, 111, 114, 108, 100, 10] :: byte list"
  let ?r = "Chunk [104, 101, 108] (Chunk [] (Eof [108, 111, 32, 119, 111, 114, 108, 100, 10]))"
  have one: "count (Chunk ?S (Eof [])) = (\<lparr>Lines = 1, Words = 2, Bytes = 12\<rparr>, None)"
    by (simp add: count_def count_read_def count_byte_def isSpace_def IsSpace_def rune_of_def)
  have k: "(0::nat) < 2" by simp
  note inv = count_chunk_size_invariant [OF k, of ?S ?r "Chunk ?S (Eof [])"]
  from inv one have "count (chunked 2 ?S) = (\<lparr>Lines = 1, Words = 2, Bytes = 12\<rparr>, None)"
    by simp
  moreover from inv one have "count (chunked 1 ?S) = (\<lparr>Lines = 1, Words = 2, Bytes = 12\<rparr>, None)"
    by simp
  moreover from inv one have "count ?r = (\<lparr>Lines = 1, Words = 2, Bytes = 12\<rparr>, None)"
    by simp
  ultimately show ?thesis by simp
qed

subsection \<open>Concatenation\<close>

lemma count_depends_on_stream: "fst (count r) = fst (count (Eof (stream r)))"
  by (simp add: count_stream)

text \<open>
  C8. When a reader delivers the bytes of one stream followed by the bytes of another,
  its \<open>Lines\<close> and \<open>Bytes\<close> are the sums of theirs. Its \<open>Words\<close> is the sum of theirs when
  one of the two streams is empty, or the first ends with a whitespace byte, or the
  second starts with one; when the first ends and the second starts with a byte that is
  not whitespace, the two words at the boundary count once, and \<open>Words\<close> is one less than
  the sum: \<open>foo\<close> followed by \<open>bar\<close> has one word, not two. The sums are those of \<^verbatim>\<open>int64\<close>.
\<close>

theorem count_concat:
  "stream ab = stream a @ stream b \<Longrightarrow>
     Lines (fst (count ab)) = Lines (fst (count a)) + Lines (fst (count b)) \<and>
     Bytes (fst (count ab)) = Bytes (fst (count a)) + Bytes (fst (count b)) \<and>
     (stream a = [] \<or> stream b = [] \<or> isSpace (last (stream a)) \<or> isSpace (hd (stream b))
        \<longrightarrow> Words (fst (count ab)) = Words (fst (count a)) + Words (fst (count b))) \<and>
     (stream a \<noteq> [] \<and> stream b \<noteq> [] \<and>
      \<not> isSpace (last (stream a)) \<and> \<not> isSpace (hd (stream b))
        \<longrightarrow> Words (fst (count ab)) + 1 = Words (fst (count a)) + Words (fst (count b))) \<and>
     Words (fst (count (Eof ([102, 111, 111] @ [98, 97, 114])))) = 1 \<and>
     Words (fst (count (Eof [102, 111, 111]))) + Words (fst (count (Eof [98, 97, 114]))) = 2"
proof (intro conjI impI)
  assume ab: "stream ab = stream a @ stream b"
  show "Lines (fst (count ab)) = Lines (fst (count a)) + Lines (fst (count b))"
    by (simp add: Lines_count ab newlines_def)
  show "Bytes (fst (count ab)) = Bytes (fst (count a)) + Bytes (fst (count b))"
    by (simp add: Bytes_count ab)
  have w: "Words (fst (count ab)) +
      (if stream a \<noteq> [] \<and> stream b \<noteq> [] \<and>
          \<not> isSpace (last (stream a)) \<and> \<not> isSpace (hd (stream b)) then 1 else 0) =
      Words (fst (count a)) + Words (fst (count b))"
    using Words_append [of "stream a" "stream b"]
    by (simp add: count_depends_on_stream [of ab] count_depends_on_stream [of a]
        count_depends_on_stream [of b] ab)
  show "Words (fst (count ab)) = Words (fst (count a)) + Words (fst (count b))"
    if "stream a = [] \<or> stream b = [] \<or> isSpace (last (stream a)) \<or> isSpace (hd (stream b))"
    using that w by auto
  show "Words (fst (count ab)) + 1 = Words (fst (count a)) + Words (fst (count b))"
    if "stream a \<noteq> [] \<and> stream b \<noteq> [] \<and>
        \<not> isSpace (last (stream a)) \<and> \<not> isSpace (hd (stream b))"
    using that w by simp
  show "Words (fst (count (Eof ([102, 111, 111] @ [98, 97, 114])))) = 1"
    by (simp add: count_def count_read_def count_byte_def isSpace_def IsSpace_def rune_of_def)
  show "Words (fst (count (Eof [102, 111, 111]))) + Words (fst (count (Eof [98, 97, 114]))) = 2"
    by (simp add: count_def count_read_def count_byte_def isSpace_def IsSpace_def rune_of_def)
qed

text \<open>
  \<open>foo\<close> with a newline, followed by \<open>bar\<close> read in two pieces: the boundary is
  whitespace, and the counts of the whole are the sums, lines 1, words 2, bytes 7.
\<close>

theorem count_concat_witness:
  "fst (count (Eof [102, 111, 111, 10, 98, 97, 114])) = \<lparr>Lines = 1, Words = 2, Bytes = 7\<rparr> \<and>
   fst (count (Eof [102, 111, 111, 10])) = \<lparr>Lines = 1, Words = 1, Bytes = 4\<rparr> \<and>
   fst (count (Chunk [98] (Eof [97, 114]))) = \<lparr>Lines = 0, Words = 1, Bytes = 3\<rparr>"
proof -
  let ?a = "Eof [102, 111, 111, 10]"
  let ?b = "Chunk [98] (Eof [97, 114])"
  let ?ab = "Eof [102, 111, 111, 10, 98, 97, 114]"
  have a: "fst (count ?a) = \<lparr>Lines = 1, Words = 1, Bytes = 4\<rparr>"
    by (simp add: count_def count_read_def count_byte_def isSpace_def IsSpace_def rune_of_def)
  have b: "fst (count ?b) = \<lparr>Lines = 0, Words = 1, Bytes = 3\<rparr>"
    by (simp add: count_def count_read_def count_byte_def isSpace_def IsSpace_def rune_of_def)
  have s: "stream ?ab = stream ?a @ stream ?b" by simp
  have sp: "isSpace (last (stream ?a))"
    by (simp add: isSpace_def IsSpace_def rune_of_def)
  from count_concat [OF s] sp a b
  have "Lines (fst (count ?ab)) = 1 \<and> Bytes (fst (count ?ab)) = 7 \<and> Words (fst (count ?ab)) = 2"
    by simp
  then have "fst (count ?ab) = \<lparr>Lines = 1, Words = 2, Bytes = 7\<rparr>"
    by (cases "fst (count ?ab)") simp
  with a b show ?thesis by simp
qed

subsection \<open>Bounds\<close>

text \<open>
  C10. The three fields are the \<^verbatim>\<open>int64\<close> values of the number of newline bytes, the
  number of maximal runs and the length of the stream, and neither of the first two
  numbers exceeds the third: a byte adds at most one line and at most one word. For a
  stream whose length is in the range of the \<open>Bytes\<close> field, that is shorter than \<open>2^63\<close>
  bytes, the signed values of the fields are these numbers, so all three are
  non-negative, and \<open>Lines\<close> and \<open>Words\<close> are at most \<open>Bytes\<close>. (Past that length the
  fields wrap around, as \<^verbatim>\<open>int64\<close> addition does.)
\<close>

theorem count_bounds:
  "Lines (fst (count r)) = of_nat (newlines (stream r)) \<and>
   Words (fst (count r)) = of_nat (card (maximal_runs (stream r))) \<and>
   Bytes (fst (count r)) = of_nat (length (stream r)) \<and>
   newlines (stream r) \<le> length (stream r) \<and>
   card (maximal_runs (stream r)) \<le> length (stream r) \<and>
   (length (stream r) < 2 ^ 63 \<longrightarrow>
      0 \<le> sint (Lines (fst (count r))) \<and>
      sint (Lines (fst (count r))) \<le> sint (Bytes (fst (count r))) \<and>
      0 \<le> sint (Words (fst (count r))) \<and>
      sint (Words (fst (count r))) \<le> sint (Bytes (fst (count r))) \<and>
      0 \<le> sint (Bytes (fst (count r))))"
proof -
  let ?s = "stream r"
  have l: "newlines ?s \<le> length ?s" by (rule newlines_le_length)
  have w: "card (maximal_runs ?s) \<le> length ?s" by (rule card_runs_le_length)
  have signed: "0 \<le> sint (Lines (fst (count r))) \<and>
      sint (Lines (fst (count r))) \<le> sint (Bytes (fst (count r))) \<and>
      0 \<le> sint (Words (fst (count r))) \<and>
      sint (Words (fst (count r))) \<le> sint (Bytes (fst (count r))) \<and>
      0 \<le> sint (Bytes (fst (count r)))"
    if b: "length ?s < 2 ^ 63"
  proof -
    from l b have "newlines ?s < 2 ^ 63" by (rule le_less_trans)
    then have sl: "sint (Lines (fst (count r))) = int (newlines ?s)"
      by (simp add: Lines_count sint_of_nat_small)
    from w b have "card (maximal_runs ?s) < 2 ^ 63" by (rule le_less_trans)
    then have sw: "sint (Words (fst (count r))) = int (card (maximal_runs ?s))"
      by (simp add: Words_count sint_of_nat_small)
    from b have sb: "sint (Bytes (fst (count r))) = int (length ?s)"
      by (simp add: Bytes_count sint_of_nat_small)
    from l w show ?thesis unfolding sl sw sb by simp
  qed
  from l w signed show ?thesis
    by (simp only: Lines_count Words_count Bytes_count) simp
qed

text \<open>The stream \<open>hello world\<close> with its newline: lines 1, words 2, bytes 12.\<close>

theorem count_bounds_witness:
  "sint (Lines (fst (count (Eof [104, 101, 108, 108, 111, 32, 119, 111, 114, 108, 100, 10])))) = 1 \<and>
   sint (Words (fst (count (Eof [104, 101, 108, 108, 111, 32, 119, 111, 114, 108, 100, 10])))) = 2 \<and>
   sint (Bytes (fst (count (Eof [104, 101, 108, 108, 111, 32, 119, 111, 114, 108, 100, 10])))) = 12 \<and>
   0 \<le> sint (Lines (fst (count (Eof [104, 101, 108, 108, 111, 32, 119, 111, 114, 108, 100, 10])))) \<and>
   sint (Words (fst (count (Eof [104, 101, 108, 108, 111, 32, 119, 111, 114, 108, 100, 10]))))
     \<le> sint (Bytes (fst (count (Eof [104, 101, 108, 108, 111, 32, 119, 111, 114, 108, 100, 10]))))"
proof -
  let ?r = "Eof [104, 101, 108, 108, 111, 32, 119, 111, 114, 108, 100, 10]"
  have c: "fst (count ?r) = \<lparr>Lines = 1, Words = 2, Bytes = 12\<rparr>"
    by (simp add: count_def count_read_def count_byte_def isSpace_def IsSpace_def rune_of_def)
  have b: "length (stream ?r) < 2 ^ 63" by simp
  from count_bounds [of ?r] b
  have "0 \<le> sint (Lines (fst (count ?r))) \<and>
      sint (Words (fst (count ?r))) \<le> sint (Bytes (fst (count ?r)))"
    by blast
  moreover from c have "sint (Lines (fst (count ?r))) = 1 \<and>
      sint (Words (fst (count ?r))) = 2 \<and> sint (Bytes (fst (count ?r))) = 12"
    by simp
  ultimately show ?thesis by blast
qed

section \<open>The output format\<close>

lemma replicate_numeral: "replicate (numeral k) x = x # replicate (pred_numeral k) x"
  by (simp add: numeral_eq_Suc)

lemma decimal_nonempty: "decimal n \<noteq> []"
  by (subst decimal.simps) simp

lemma length_decimal_le: "0 < k \<Longrightarrow> length (decimal n) \<le> k \<longleftrightarrow> n < 10 ^ k"
proof (induction n arbitrary: k rule: decimal.induct)
  case (1 n)
  show ?case
  proof (cases "n < 10")
    case True
    have "(10::nat) ^ 1 \<le> 10 ^ k" using "1.prems" by (intro power_increasing) simp_all
    with True have "n < 10 ^ k" by simp
    moreover from True have "length (decimal n) = 1" by (subst decimal.simps) simp
    ultimately show ?thesis using "1.prems" by simp
  next
    case False
    then have len: "length (decimal n) = Suc (length (decimal (n div 10)))"
      by (subst decimal.simps) simp
    show ?thesis
    proof (cases k)
      case 0
      with "1.prems" show ?thesis by simp
    next
      case (Suc j)
      show ?thesis
      proof (cases "j = 0")
        case True
        with Suc False len decimal_nonempty [of "n div 10"] show ?thesis
          by (cases "decimal (n div 10)") simp_all
      next
        case j: False
        then have "length (decimal (n div 10)) \<le> j \<longleftrightarrow> n div 10 < 10 ^ j"
          using False by (intro "1.IH") simp_all
        moreover have "n div 10 < 10 ^ j \<longleftrightarrow> n < 10 ^ Suc j"
          by (simp add: div_less_iff_less_mult mult.commute)
        ultimately show ?thesis using Suc len by simp
      qed
    qed
  qed
qed

lemma length_format_d_le_8: "length (format_d v) \<le> 8 \<longleftrightarrow> - (10 ^ 7) < v \<and> v < 10 ^ 8"
proof (cases "v < 0")
  case True
  have "length (decimal (nat (- v))) \<le> 7 \<longleftrightarrow> nat (- v) < 10 ^ 7"
    by (rule length_decimal_le) simp
  also have "\<dots> \<longleftrightarrow> - (10 ^ 7) < v"
    using True by (auto simp: nat_less_iff)
  finally show ?thesis using True by (simp add: format_d_def)
next
  case False
  have "length (decimal (nat v)) \<le> 8 \<longleftrightarrow> nat v < 10 ^ 8"
    by (rule length_decimal_le) simp
  also have "\<dots> \<longleftrightarrow> v < 10 ^ 8"
    using False by (simp add: nat_less_iff)
  finally show ?thesis using False by (simp add: format_d_def)
qed

lemma length_sprintf_width_d:
  "length (sprintf_width_d width v) = max width (length (format_d (sint v)))"
  by (simp add: sprintf_width_d_def pad_left_def)

lemma formatOutput_concat:
  "formatOutput counts flags filename =
     (if ShowLines flags then sprintf_width_d 8 (Lines counts) else []) @
     (if ShowWords flags then sprintf_width_d 8 (Words counts) else []) @
     (if ShowBytes flags then sprintf_width_d 8 (Bytes counts) else []) @
     (if filename = [] then [] else CHR '' '' # filename)"
  by (simp add: formatOutput_def)

text \<open>
  C7, as amended. The line is made of the fields of the selected counts only, in the
  order lines, words, bytes, with nothing between them, and then, when the name is not
  empty, one space and the name. A field is the signed decimal numeral of the count
  with spaces in front of it, as many as it takes to reach 8 characters: it has 8
  characters when the count is between \<open>-9999999\<close> and \<open>99999999\<close>, and is the numeral
  alone, longer than 8 characters, otherwise.
\<close>

theorem formatOutput_layout:
  "formatOutput counts flags filename =
     (if ShowLines flags then sprintf_width_d 8 (Lines counts) else []) @
     (if ShowWords flags then sprintf_width_d 8 (Words counts) else []) @
     (if ShowBytes flags then sprintf_width_d 8 (Bytes counts) else []) @
     (if filename = [] then [] else CHR '' '' # filename) \<and>
   sprintf_width_d 8 v =
     replicate (8 - length (format_d (sint v))) (CHR '' '') @ format_d (sint v) \<and>
   length (sprintf_width_d 8 v) = max 8 (length (format_d (sint v))) \<and>
   (length (sprintf_width_d 8 v) = 8 \<longleftrightarrow> - (10 ^ 7) < sint v \<and> sint v < 10 ^ 8)"
proof (intro conjI)
  show "formatOutput counts flags filename =
     (if ShowLines flags then sprintf_width_d 8 (Lines counts) else []) @
     (if ShowWords flags then sprintf_width_d 8 (Words counts) else []) @
     (if ShowBytes flags then sprintf_width_d 8 (Bytes counts) else []) @
     (if filename = [] then [] else CHR '' '' # filename)"
    by (rule formatOutput_concat)
  show "sprintf_width_d 8 v =
     replicate (8 - length (format_d (sint v))) (CHR '' '') @ format_d (sint v)"
    by (simp add: sprintf_width_d_def pad_left_def)
  show "length (sprintf_width_d 8 v) = max 8 (length (format_d (sint v)))"
    by (rule length_sprintf_width_d)
  have "length (sprintf_width_d 8 v) = 8 \<longleftrightarrow> length (format_d (sint v)) \<le> 8"
    by (auto simp: length_sprintf_width_d)
  then show "length (sprintf_width_d 8 v) = 8 \<longleftrightarrow> - (10 ^ 7) < sint v \<and> sint v < 10 ^ 8"
    by (simp add: length_format_d_le_8)
qed

text \<open>
  The counts of \<open>hello world\<close> under a name, the word count alone with no name, and a
  byte count of nine digits, which touches the field before it.
\<close>

theorem formatOutput_layout_witness:
  "formatOutput \<lparr>Lines = 1, Words = 2, Bytes = 12\<rparr>
       \<lparr>ShowLines = True, ShowWords = True, ShowBytes = True\<rparr> ''a.txt'' =
     ''       1       2      12 a.txt'' \<and>
   formatOutput \<lparr>Lines = 0, Words = 3, Bytes = 13\<rparr>
       \<lparr>ShowLines = False, ShowWords = True, ShowBytes = False\<rparr> [] =
     ''       3'' \<and>
   formatOutput \<lparr>Lines = 1, Words = 2, Bytes = 100000000\<rparr>
       \<lparr>ShowLines = True, ShowWords = True, ShowBytes = True\<rparr> [] =
     ''       1       2100000000''"
proof -
  have f: "sprintf_width_d 8 1 = ''       1''" "sprintf_width_d 8 2 = ''       2''"
    "sprintf_width_d 8 3 = ''       3''" "sprintf_width_d 8 12 = ''      12''"
    "sprintf_width_d 8 100000000 = ''100000000''"
    by (simp_all add: sprintf_width_d_def pad_left_def format_d_def decimal.simps
        replicate_numeral)
  show ?thesis
    using formatOutput_layout [of "\<lparr>Lines = 1, Words = 2, Bytes = 12\<rparr>"
        "\<lparr>ShowLines = True, ShowWords = True, ShowBytes = True\<rparr>" "''a.txt''" 0]
      formatOutput_layout [of "\<lparr>Lines = 0, Words = 3, Bytes = 13\<rparr>"
        "\<lparr>ShowLines = False, ShowWords = True, ShowBytes = False\<rparr>" "[]" 0]
      formatOutput_layout [of "\<lparr>Lines = 1, Words = 2, Bytes = 100000000\<rparr>"
        "\<lparr>ShowLines = True, ShowWords = True, ShowBytes = True\<rparr>" "[]" 0]
    by (simp add: f)
qed

text \<open>
  C7 as it is stated fails for a byte count of 100000000, shown alone with no name:
  the line is the nine digits, not a field of 8 characters.
\<close>

theorem formatOutput_fixed_width_counterexample:
  "formatOutput \<lparr>Lines = 0, Words = 0, Bytes = 100000000\<rparr>
       \<lparr>ShowLines = False, ShowWords = False, ShowBytes = True\<rparr> [] = ''100000000'' \<and>
   length (formatOutput \<lparr>Lines = 0, Words = 0, Bytes = 100000000\<rparr>
       \<lparr>ShowLines = False, ShowWords = False, ShowBytes = True\<rparr> []) = 9"
  by (simp add: formatOutput_def sprintf_width_d_def pad_left_def format_d_def decimal.simps)

section \<open>The driver\<close>

subsection \<open>One argument\<close>

lemma stdin_process_file:
  "stdin (process_file fs flags prog name s) = (if name = ''-'' then tl (stdin s) else stdin s)"
  by (auto simp: process_file_def take_stdin_def count_source_def Let_def
      split: list.splits sum.splits prod.splits option.splits)

lemma process_file_failed:
  assumes "source_result fs (stdin s) name = Inl e"
  shows "stdout (process_file fs flags prog name s) = stdout s \<and>
    stderr (process_file fs flags prog name s) = stderr s @ [diagnostic prog (display name, e)] \<and>
    totalCounts (process_file fs flags prog name s) = totalCounts s \<and>
    filesProcessed (process_file fs flags prog name s) = filesProcessed s \<and>
    errorsOccurred (process_file fs flags prog name s)"
  using assms
  by (auto simp: process_file_def source_result_def take_stdin_def count_source_def Let_def
      diagnostic_def display_def
      split: list.splits sum.splits prod.splits option.splits if_splits)

lemma process_file_counted:
  assumes "source_result fs (stdin s) name = Inr c"
  shows "stdout (process_file fs flags prog name s) =
      stdout s @ [result_line flags (display name, c)] \<and>
    stderr (process_file fs flags prog name s) = stderr s \<and>
    totalCounts (process_file fs flags prog name s) = add_counts (totalCounts s) c \<and>
    filesProcessed (process_file fs flags prog name s) = Suc (filesProcessed s) \<and>
    errorsOccurred (process_file fs flags prog name s) = errorsOccurred s"
  using assms
  by (auto simp: process_file_def source_result_def take_stdin_def count_source_def Let_def
      result_line_def display_def
      split: list.splits sum.splits prod.splits option.splits if_splits)

subsection \<open>The loop\<close>

lemma process_files_results:
  "stdout (process_files fs flags prog names s) =
      stdout s @ map (result_line flags) (counted (results fs (stdin s) names)) \<and>
   stderr (process_files fs flags prog names s) =
      stderr s @ map (diagnostic prog) (failed (results fs (stdin s) names)) \<and>
   totalCounts (process_files fs flags prog names s) =
      foldl add_counts (totalCounts s) (map snd (counted (results fs (stdin s) names))) \<and>
   filesProcessed (process_files fs flags prog names s) =
      filesProcessed s + length (counted (results fs (stdin s) names)) \<and>
   errorsOccurred (process_files fs flags prog names s) =
      (errorsOccurred s \<or> failed (results fs (stdin s) names) \<noteq> [])"
proof (induction names arbitrary: s)
  case Nil
  show ?case by simp
next
  case (Cons name rest)
  let ?s' = "process_file fs flags prog name s"
  have input: "stdin ?s' = (if name = ''-'' then tl (stdin s) else stdin s)"
    by (rule stdin_process_file)
  note IH = Cons.IH [of ?s', unfolded input]
  show ?case
  proof (cases "source_result fs (stdin s) name")
    case (Inl e)
    from process_file_failed [OF Inl, of flags prog] IH show ?thesis
      by (simp add: Inl)
  next
    case (Inr c)
    from process_file_counted [OF Inr, of flags prog] IH show ?thesis
      by (simp add: Inr)
  qed
qed

lemma length_results: "length (results fs input names) = length names"
  by (induction names arbitrary: input) simp_all

lemma counted_or_failed: "length (counted rs) + length (failed rs) = length rs"
  by (induction rs rule: counted.induct) simp_all

subsection \<open>The whole run\<close>

lemma stdin_start: "stdin (start input) = input"
  by (simp add: start_def)

lemma main_named:
  assumes "filenames \<noteq> []"
  shows "main fs input prog parsed filenames =
    leave ((process_files fs (default_flags parsed) prog filenames (start input))
      \<lparr>stdout := stdout (process_files fs (default_flags parsed) prog filenames (start input)) @
         (if 1 < filesProcessed (process_files fs (default_flags parsed) prog filenames (start input))
          then [formatOutput
                  (totalCounts (process_files fs (default_flags parsed) prog filenames (start input)))
                  (default_flags parsed) ''total'']
          else [])\<rparr>)"
  using assms by (simp add: main_def Let_def)

lemma leave_fields:
  "fst (leave s) = (if errorsOccurred s then 1 else 0) \<and>
   stdout (snd (leave s)) = stdout s \<and> stderr (snd (leave s)) = stderr s \<and>
   totalCounts (snd (leave s)) = totalCounts s \<and>
   filesProcessed (snd (leave s)) = filesProcessed s"
  by (simp add: leave_def)

lemma main_named_results:
  assumes "filenames \<noteq> []"
  shows "fst (main fs input prog parsed filenames) =
      (if failed (results fs input filenames) = [] then 0 else 1) \<and>
    stdout (snd (main fs input prog parsed filenames)) =
      map (result_line (default_flags parsed)) (counted (results fs input filenames)) @
      (if 1 < length (counted (results fs input filenames))
       then [formatOutput (sum_counts (map snd (counted (results fs input filenames))))
               (default_flags parsed) ''total'']
       else []) \<and>
    stderr (snd (main fs input prog parsed filenames)) =
      map (diagnostic prog) (failed (results fs input filenames)) \<and>
    totalCounts (snd (main fs input prog parsed filenames)) =
      sum_counts (map snd (counted (results fs input filenames))) \<and>
    filesProcessed (snd (main fs input prog parsed filenames)) =
      length (counted (results fs input filenames))"
proof -
  let ?p = "process_files fs (default_flags parsed) prog filenames (start input)"
  note r = process_files_results [of fs "default_flags parsed" prog filenames "start input",
      unfolded stdin_start]
  have s0: "stdout (start input) = []" "stderr (start input) = []"
    "totalCounts (start input) = \<lparr>Lines = 0, Words = 0, Bytes = 0\<rparr>"
    "filesProcessed (start input) = 0" "errorsOccurred (start input) = False"
    by (simp_all add: start_def)
  from r show ?thesis
    by (simp add: main_named [OF assms] leave_fields s0 sum_counts_def)
qed

text \<open>
  C5. With named sources, a source that cannot be opened or counted gets a
  diagnostic on the error stream, no result line, no share in the total and no count
  as a processed file, and the loop goes on to the arguments after it: the error
  stream holds the diagnostics of the failed sources, the output starts with the result
  lines of the others, in order, the total is the sum of their counts, and every
  argument is one or the other. The exit status is 0 when no source failed and 1
  when one did.
\<close>

theorem main_partial_failure:
  "filenames \<noteq> [] \<Longrightarrow>
     fst (main fs input prog parsed filenames) =
       (if failed (results fs input filenames) = [] then 0 else 1) \<and>
     stderr (snd (main fs input prog parsed filenames)) =
       map (diagnostic prog) (failed (results fs input filenames)) \<and>
     take (length (counted (results fs input filenames)))
         (stdout (snd (main fs input prog parsed filenames))) =
       map (result_line (default_flags parsed)) (counted (results fs input filenames)) \<and>
     totalCounts (snd (main fs input prog parsed filenames)) =
       sum_counts (map snd (counted (results fs input filenames))) \<and>
     filesProcessed (snd (main fs input prog parsed filenames)) =
       length (counted (results fs input filenames)) \<and>
     length (counted (results fs input filenames)) +
       length (failed (results fs input filenames)) = length filenames \<and>
     (source_result fs (stdin s) name = Inl e \<longrightarrow>
        stderr (process_file fs flags prog name s) =
          stderr s @ [diagnostic prog (display name, e)] \<and>
        stdout (process_file fs flags prog name s) = stdout s \<and>
        totalCounts (process_file fs flags prog name s) = totalCounts s \<and>
        filesProcessed (process_file fs flags prog name s) = filesProcessed s \<and>
        errorsOccurred (process_file fs flags prog name s) \<and>
        process_files fs flags prog (name # rest) s =
          process_files fs flags prog rest (process_file fs flags prog name s))"
proof (intro conjI impI)
  assume ne: "filenames \<noteq> []"
  note m = main_named_results [OF ne, of fs input prog parsed]
  from m show "fst (main fs input prog parsed filenames) =
      (if failed (results fs input filenames) = [] then 0 else 1)"
    by (rule conjunct1)
  from m show "stderr (snd (main fs input prog parsed filenames)) =
      map (diagnostic prog) (failed (results fs input filenames))"
    by simp
  from m show "take (length (counted (results fs input filenames)))
        (stdout (snd (main fs input prog parsed filenames))) =
      map (result_line (default_flags parsed)) (counted (results fs input filenames))"
    by simp
  from m show "totalCounts (snd (main fs input prog parsed filenames)) =
      sum_counts (map snd (counted (results fs input filenames)))"
    by simp
  from m show "filesProcessed (snd (main fs input prog parsed filenames)) =
      length (counted (results fs input filenames))"
    by simp
  show "length (counted (results fs input filenames)) +
      length (failed (results fs input filenames)) = length filenames"
    by (simp add: counted_or_failed length_results)
next
  assume f: "source_result fs (stdin s) name = Inl e"
  note p = process_file_failed [OF f, of flags prog]
  from p show "stderr (process_file fs flags prog name s) =
      stderr s @ [diagnostic prog (display name, e)]"
    by simp
  from p show "stdout (process_file fs flags prog name s) = stdout s"
    by simp
  from p show "totalCounts (process_file fs flags prog name s) = totalCounts s"
    by simp
  from p show "filesProcessed (process_file fs flags prog name s) = filesProcessed s"
    by simp
  from p show "errorsOccurred (process_file fs flags prog name s)"
    by simp
  show "process_files fs flags prog (name # rest) s =
      process_files fs flags prog rest (process_file fs flags prog name s)"
    by simp
qed

text \<open>
  Four arguments: a file \<open>a\<close> that holds \<open>a\<close> and a newline, a path that does not
  exist, standard input holding \<open>x y\<close>, and a directory, which opens but fails at the
  first read.
\<close>

theorem main_partial_failure_witness:
  "fst (main (\<lambda>n. if n = ''a'' then Inr (Eof [97, 10])
                   else if n = ''d'' then Inr (Fail [] ''read d: is a directory'')
                   else Inl (''open '' @ n @ '': no such file or directory''))
         [Eof [120, 32, 121]] ''gowc''
         \<lparr>ShowLines = False, ShowWords = False, ShowBytes = False\<rparr>
         [''a'', ''zz'', ''-'', ''d'']) = 1 \<and>
   stderr (snd (main (\<lambda>n. if n = ''a'' then Inr (Eof [97, 10])
                   else if n = ''d'' then Inr (Fail [] ''read d: is a directory'')
                   else Inl (''open '' @ n @ '': no such file or directory''))
         [Eof [120, 32, 121]] ''gowc''
         \<lparr>ShowLines = False, ShowWords = False, ShowBytes = False\<rparr>
         [''a'', ''zz'', ''-'', ''d''])) =
     [''gowc: zz: open zz: no such file or directory'',
      ''gowc: d: error reading input: read d: is a directory''] \<and>
   totalCounts (snd (main (\<lambda>n. if n = ''a'' then Inr (Eof [97, 10])
                   else if n = ''d'' then Inr (Fail [] ''read d: is a directory'')
                   else Inl (''open '' @ n @ '': no such file or directory''))
         [Eof [120, 32, 121]] ''gowc''
         \<lparr>ShowLines = False, ShowWords = False, ShowBytes = False\<rparr>
         [''a'', ''zz'', ''-'', ''d''])) = \<lparr>Lines = 1, Words = 3, Bytes = 5\<rparr> \<and>
   stdout (process_file (\<lambda>n. if n = ''a'' then Inr (Eof [97, 10])
                   else if n = ''d'' then Inr (Fail [] ''read d: is a directory'')
                   else Inl (''open '' @ n @ '': no such file or directory''))
         \<lparr>ShowLines = True, ShowWords = True, ShowBytes = True\<rparr> ''gowc'' ''d''
         (start [])) = []"
proof -
  let ?fs = "\<lambda>n. if n = ''a'' then Inr (Eof [97, 10])
                   else if n = ''d'' then Inr (Fail [] ''read d: is a directory'')
                   else Inl (''open '' @ n @ '': no such file or directory'')"
  let ?names = "[''a'', ''zz'', ''-'', ''d'']"
  let ?none = "\<lparr>ShowLines = False, ShowWords = False, ShowBytes = False\<rparr>"
  let ?all = "\<lparr>ShowLines = True, ShowWords = True, ShowBytes = True\<rparr>"
  have rs: "results ?fs [Eof [120, 32, 121]] ?names =
      [(''a'', Inr \<lparr>Lines = 1, Words = 1, Bytes = 2\<rparr>),
       (''zz'', Inl ''open zz: no such file or directory''),
       (''-'', Inr \<lparr>Lines = 0, Words = 2, Bytes = 3\<rparr>),
       (''d'', Inl ''error reading input: read d: is a directory'')]"
    by (simp add: source_result_def count_def count_read_def count_byte_def
        isSpace_def IsSpace_def rune_of_def)
  have d: "source_result ?fs (stdin (start [])) ''d'' =
      Inl ''error reading input: read d: is a directory''"
    by (simp add: source_result_def count_def count_read_def start_def)
  have ne: "?names \<noteq> []" by simp
  note t = main_partial_failure [OF ne, of ?fs "[Eof [120, 32, 121]]" "''gowc''" ?none
      "start []" "''d''" "''error reading input: read d: is a directory''" ?all "[]",
      unfolded rs]
  from t have "fst (main ?fs [Eof [120, 32, 121]] ''gowc'' ?none ?names) = 1"
    by simp
  moreover from t have "stderr (snd (main ?fs [Eof [120, 32, 121]] ''gowc'' ?none ?names)) =
      [''gowc: zz: open zz: no such file or directory'',
       ''gowc: d: error reading input: read d: is a directory'']"
    by (simp add: diagnostic_def display_def)
  moreover from t
  have "totalCounts (snd (main ?fs [Eof [120, 32, 121]] ''gowc'' ?none ?names)) =
      \<lparr>Lines = 1, Words = 3, Bytes = 5\<rparr>"
    by (simp add: display_def sum_counts_def add_counts_def)
  moreover from t d have "stdout (process_file ?fs ?all ''gowc'' ''d'' (start [])) = []"
    by (simp add: start_def)
  ultimately show ?thesis by simp
qed

text \<open>
  C6. The output of a run with named sources is the result lines of the sources that
  were counted, followed by one more line, the sum of their counts under the name
  \<open>total\<close>, exactly when more than one source was counted. With no argument, the output
  is the line of standard input alone, or nothing when counting it fails.
\<close>

theorem main_total_line:
  "stdout (snd (main fs input prog parsed filenames)) =
     (if filenames = [] then
        (case source_result fs input ''-'' of
           Inr c \<Rightarrow> [formatOutput c (default_flags parsed) []]
         | Inl e \<Rightarrow> [])
      else
        map (result_line (default_flags parsed)) (counted (results fs input filenames)) @
        (if 1 < length (counted (results fs input filenames))
         then [formatOutput (sum_counts (map snd (counted (results fs input filenames))))
                 (default_flags parsed) ''total'']
         else []))"
proof (cases "filenames = []")
  case True
  then show ?thesis
    by (auto simp: main_def Let_def take_stdin_def start_def leave_def source_result_def
        split: list.splits prod.splits option.splits)
next
  case False
  from main_named_results [OF False, of fs input prog parsed] False show ?thesis
    by simp
qed

text \<open>
  Three files that hold \<open>a\<close>, \<open>b b\<close> and \<open>c\<close>, each with a newline: three lines and the
  total. A path that does not exist and the file \<open>a\<close>: one line and no total.
  No argument, with only the words shown: one line.
\<close>

theorem main_total_line_witness:
  "stdout (snd (main (\<lambda>n. if n = ''a'' then Inr (Eof [97, 10])
                     else if n = ''b'' then Inr (Eof [98, 32, 98, 10])
                     else if n = ''c'' then Inr (Eof [99, 10])
                     else Inl (''open '' @ n @ '': no such file or directory''))
           [] ''gowc'' \<lparr>ShowLines = False, ShowWords = False, ShowBytes = False\<rparr>
           [''a'', ''b'', ''c''])) =
     [''       1       1       2 a'', ''       1       2       4 b'',
      ''       1       1       2 c'', ''       3       4       8 total''] \<and>
   stdout (snd (main (\<lambda>n. if n = ''a'' then Inr (Eof [97, 10])
                     else if n = ''b'' then Inr (Eof [98, 32, 98, 10])
                     else if n = ''c'' then Inr (Eof [99, 10])
                     else Inl (''open '' @ n @ '': no such file or directory''))
           [] ''gowc'' \<lparr>ShowLines = False, ShowWords = False, ShowBytes = False\<rparr>
           [''zz'', ''a''])) =
     [''       1       1       2 a''] \<and>
   stdout (snd (main (\<lambda>n. Inl [])
           [Eof [111, 110, 101, 32, 116, 119, 111, 32, 116, 104, 114, 101, 101]] ''gowc''
           \<lparr>ShowLines = False, ShowWords = True, ShowBytes = False\<rparr> [])) =
     [''       3'']"
proof -
  let ?fs = "\<lambda>n. if n = ''a'' then Inr (Eof [97, 10])
                     else if n = ''b'' then Inr (Eof [98, 32, 98, 10])
                     else if n = ''c'' then Inr (Eof [99, 10])
                     else Inl (''open '' @ n @ '': no such file or directory'')"
  let ?all = "\<lparr>ShowLines = False, ShowWords = False, ShowBytes = False\<rparr>"
  have f: "sprintf_width_d 8 1 = ''       1''" "sprintf_width_d 8 2 = ''       2''"
    "sprintf_width_d 8 3 = ''       3''" "sprintf_width_d 8 4 = ''       4''"
    "sprintf_width_d 8 8 = ''       8''"
    by (simp_all add: sprintf_width_d_def pad_left_def format_d_def decimal.simps
        replicate_numeral)
  have r1: "results ?fs [] [''a'', ''b'', ''c''] =
      [(''a'', Inr \<lparr>Lines = 1, Words = 1, Bytes = 2\<rparr>),
       (''b'', Inr \<lparr>Lines = 1, Words = 2, Bytes = 4\<rparr>),
       (''c'', Inr \<lparr>Lines = 1, Words = 1, Bytes = 2\<rparr>)]"
    by (simp add: source_result_def count_def count_read_def count_byte_def
        isSpace_def IsSpace_def rune_of_def)
  have r2: "results ?fs [] [''zz'', ''a''] =
      [(''zz'', Inl ''open zz: no such file or directory''),
       (''a'', Inr \<lparr>Lines = 1, Words = 1, Bytes = 2\<rparr>)]"
    by (simp add: source_result_def count_def count_read_def count_byte_def
        isSpace_def IsSpace_def rune_of_def)
  have r3: "source_result (\<lambda>n. Inl [])
        [Eof [111, 110, 101, 32, 116, 119, 111, 32, 116, 104, 114, 101, 101]] ''-'' =
      Inr \<lparr>Lines = 0, Words = 3, Bytes = 13\<rparr>"
    by (simp add: source_result_def count_def count_read_def count_byte_def
        isSpace_def IsSpace_def rune_of_def)
  have "stdout (snd (main ?fs [] ''gowc'' ?all [''a'', ''b'', ''c''])) =
      [''       1       1       2 a'', ''       1       2       4 b'',
       ''       1       1       2 c'', ''       3       4       8 total'']"
    using main_total_line [of ?fs "[]" "''gowc''" ?all "[''a'', ''b'', ''c'']", unfolded r1]
    by (simp add: result_line_def display_def sum_counts_def add_counts_def
        default_flags_def formatOutput_concat f)
  moreover have "stdout (snd (main ?fs [] ''gowc'' ?all [''zz'', ''a''])) =
      [''       1       1       2 a'']"
    using main_total_line [of ?fs "[]" "''gowc''" ?all "[''zz'', ''a'']", unfolded r2]
    by (simp add: result_line_def display_def default_flags_def formatOutput_concat f)
  moreover have "stdout (snd (main (\<lambda>n. Inl [])
        [Eof [111, 110, 101, 32, 116, 119, 111, 32, 116, 104, 114, 101, 101]] ''gowc''
        \<lparr>ShowLines = False, ShowWords = True, ShowBytes = False\<rparr> [])) = [''       3'']"
    using main_total_line [of "\<lambda>n. Inl []"
        "[Eof [111, 110, 101, 32, 116, 119, 111, 32, 116, 104, 114, 101, 101]]" "''gowc''"
        "\<lparr>ShowLines = False, ShowWords = True, ShowBytes = False\<rparr>" "[]", unfolded r3]
    by (simp add: default_flags_def formatOutput_concat f)
  ultimately show ?thesis by simp
qed

subsection \<open>Opened files\<close>

text \<open>
  C9, on three runs. With two files that are both counted, the first file is closed
  only when \<open>main\<close> returns, after the second has been opened, counted and closed. With
  a file followed by a path that does not exist, the run ends through \<^verbatim>\<open>os.Exit(1)\<close>,
  the deferred call is not run, and the file is never closed. Only a file whose
  counting fails (here a directory) is closed before the next argument.
\<close>

theorem main_close_trace:
  "events (snd (main (\<lambda>n. if n = ''missing''
                            then Inl ''open missing: no such file or directory''
                            else if n = ''d'' then Inr (Fail [] ''read d: is a directory'')
                            else Inr (Eof [97, 10]))
                  [] ''gowc'' \<lparr>ShowLines = False, ShowWords = False, ShowBytes = False\<rparr>
                  [''a'', ''b''])) =
     [Open 0 ''a'', Open 1 ''b'', Close 1, Close 0] \<and>
   main (\<lambda>n. if n = ''missing''
                            then Inl ''open missing: no such file or directory''
                            else if n = ''d'' then Inr (Fail [] ''read d: is a directory'')
                            else Inr (Eof [97, 10]))
                  [] ''gowc'' \<lparr>ShowLines = False, ShowWords = False, ShowBytes = False\<rparr>
                  [''a'', ''missing''] =
     (1, \<lparr>stdin = [], stdout = [''       1       1       2 a''],
          stderr = [''gowc: missing: open missing: no such file or directory''],
          totalCounts = \<lparr>Lines = 1, Words = 1, Bytes = 2\<rparr>,
          filesProcessed = 1, errorsOccurred = True,
          opened = 1, deferred = [0], events = [Open 0 ''a'']\<rparr>) \<and>
   events (snd (main (\<lambda>n. if n = ''missing''
                            then Inl ''open missing: no such file or directory''
                            else if n = ''d'' then Inr (Fail [] ''read d: is a directory'')
                            else Inr (Eof [97, 10]))
                  [] ''gowc'' \<lparr>ShowLines = False, ShowWords = False, ShowBytes = False\<rparr>
                  [''d'', ''a''])) =
     [Open 0 ''d'', Close 0, Open 1 ''a'']"
proof -
  have c: "count (Eof [97, 10]) = (\<lparr>Lines = 1, Words = 1, Bytes = 2\<rparr>, None)"
    by (simp add: count_def count_read_def count_byte_def isSpace_def IsSpace_def rune_of_def)
  have d: "count (Fail [] ''read d: is a directory'') =
      (\<lparr>Lines = 0, Words = 0, Bytes = 0\<rparr>, Some ''error reading input: read d: is a directory'')"
    by (simp add: count_def count_read_def)
  have f: "sprintf_width_d 8 1 = ''       1''" "sprintf_width_d 8 2 = ''       2''"
    by (simp_all add: sprintf_width_d_def pad_left_def format_d_def decimal.simps
        replicate_numeral)
  show ?thesis
    by (simp add: main_def start_def leave_def process_file_def count_source_def c d
        default_flags_def add_counts_def formatOutput_concat f)
qed

end
